theory Spec2Isabelle
  imports Main "HOL-Library.Word" "HOL-Library.Signed_Division"
begin

section \<open>Periodic push of metrics with extra labels (push.go)\<close>

text \<open>
  Byte slices and Go strings are modelled as \<^typ>\<open>string\<close> (a list of bytes), Go's
  \<^verbatim>\<open>int\<close> as \<^typ>\<open>int\<close>, \<^verbatim>\<open>time.Duration\<close> (an int64) as a 64-bit word
  read as a signed number, and a panic as the \<open>Inl\<close> side of a sum.
\<close>

subsection \<open>Data\<close>

abbreviation newline :: char where
  "newline \<equiv> CHR 0x0A"

type_synonym Duration = "64 word"

text \<open>The three panics of push.go, each with the arguments of its message.\<close>

datatype panic =
    BUG_interval_must_be_positive Duration
  | BUG_invalid_extraLabels string string
  | BUG_missing_whitespace string

subsection \<open>The two functions of package bytes that the transform uses\<close>

text \<open>
  \<^verbatim>\<open>bytes.IndexByte(b, c)\<close> is the index of the first instance of \<open>c\<close> in \<open>b\<close>, or -1
  if \<open>c\<close> is not present; \<^verbatim>\<open>bytes.LastIndexByte\<close> is the index of the last instance,
  or -1.
\<close>

fun IndexByte :: "string \<Rightarrow> char \<Rightarrow> int" where
  "IndexByte [] c = -1"
| "IndexByte (b # bs) c =
     (if b = c then 0
      else (let n = IndexByte bs c in if n < 0 then -1 else n + 1))"

fun LastIndexByte :: "string \<Rightarrow> char \<Rightarrow> int" where
  "LastIndexByte [] c = -1"
| "LastIndexByte (b # bs) c =
     (let n = LastIndexByte bs c in
      if n \<ge> 0 then n + 1 else if b = c then 0 else -1)"

subsection \<open>addExtraLabels\<close>

text \<open>
  The loop of \<^verbatim>\<open>addExtraLabels\<close>, one recursive call for each iteration. A slice
  expression \<^verbatim>\<open>s[:n]\<close> is \<open>take (nat n) s\<close> and \<^verbatim>\<open>s[n:]\<close> is \<open>drop (nat n) s\<close>;
  every index used is within range, since it comes from \<open>IndexByte\<close> or
  \<open>LastIndexByte\<close> on the slice it cuts (\<open>IndexByte_bounds\<close>,
  \<open>LastIndexByte_bounds\<close>). The destination and the source are separate values
  here, as they are separate buffers at the only call site; \<open>addExtraLabels_mem\<close>
  below is the loop on slices that may share memory, and
  \<open>addExtraLabels_mem_refines\<close> shows that the two agree whenever appending to the
  destination cannot write into the source.
\<close>

function addExtraLabels :: "string \<Rightarrow> string \<Rightarrow> string \<Rightarrow> panic + string" where
  "addExtraLabels dst src extraLabels =
     (if length src > 0 then
        (let n = IndexByte src newline;
             (line, src') = (if n \<ge> 0 then (take (nat n) src, drop (nat (n + 1)) src)
                             else (src, []));
             n = IndexByte line CHR ''{''
         in if n \<ge> 0 then
              addExtraLabels
                (dst @ take (nat (n + 1)) line @ extraLabels @ '','' @ drop (nat (n + 1)) line
                   @ [newline])
                src' extraLabels
            else
              (let n = LastIndexByte line CHR '' '' in
               if n < 0 then Inl (BUG_missing_whitespace line)
               else
                 addExtraLabels
                   (dst @ take (nat n) line @ ''{'' @ extraLabels @ ''}'' @ drop (nat n) line
                      @ [newline])
                   src' extraLabels))
      else Inr dst)"
  by pat_completeness auto
termination
  by (relation "measure (\<lambda>(dst, src, extraLabels). length src)")
    (auto split: if_splits)

declare addExtraLabels.simps [simp del]

text \<open>
  The lines of a block, used to state the properties below: the block is cut at every
  newline, and the bytes after the last newline are one more line when there are any.
  \<open>addExtraLabels_by_lines\<close> shows that these are the lines the loop works on.
\<close>

fun lines_of :: "string \<Rightarrow> string list" where
  "lines_of [] = []"
| "lines_of (c # cs) =
     (if c = newline then [] # lines_of cs
      else (case lines_of cs of [] \<Rightarrow> [[c]] | l # ls \<Rightarrow> (c # l) # ls))"

text \<open>
  The body of the loop for one line that has been cut off the source, as one function;
  \<open>addExtraLabels_terminated\<close> and \<open>addExtraLabels_unterminated\<close> below show that
  the loop does exactly this with every line.
\<close>

definition appendLine :: "string \<Rightarrow> string \<Rightarrow> string \<Rightarrow> panic + string" where
  "appendLine dst line el =
     (let n = IndexByte line CHR ''{''
      in if n \<ge> 0 then
           Inr (dst @ take (nat (n + 1)) line @ el @ '','' @ drop (nat (n + 1)) line @ [newline])
         else
           (let n = LastIndexByte line CHR '' '' in
            if n < 0 then Inl (BUG_missing_whitespace line)
            else Inr (dst @ take (nat n) line @ ''{'' @ el @ ''}'' @ drop (nat n) line @ [newline])))"

subsection \<open>addExtraLabels on slices of a shared memory\<close>

text \<open>
  The same loop with Go's slices as they are: a slice is a window (offset, length,
  capacity) on a backing array, the memory is the list of the backing arrays, and two
  slices may look at the same array.
\<close>

type_synonym heap = "string list"

record slice =
  s_arr :: nat
  s_off :: nat
  s_len :: nat
  s_cap :: nat

text \<open>The nil slice: no length and no capacity.\<close>

definition nil_slice :: slice where
  "nil_slice = \<lparr>s_arr = 0, s_off = 0, s_len = 0, s_cap = 0\<rparr>"

text \<open>The bytes a slice shows in a memory.\<close>

definition bytes :: "heap \<Rightarrow> slice \<Rightarrow> string" where
  "bytes h s = take (s_len s) (drop (s_off s) (h ! s_arr s))"

text \<open>\<^verbatim>\<open>s[:n]\<close> and \<^verbatim>\<open>s[n:]\<close>.\<close>

definition slice_to :: "slice \<Rightarrow> nat \<Rightarrow> slice" where
  "slice_to s n = s\<lparr>s_len := n\<rparr>"

definition slice_from :: "slice \<Rightarrow> nat \<Rightarrow> slice" where
  "slice_from s n = s\<lparr>s_off := s_off s + n, s_len := s_len s - n, s_cap := s_cap s - n\<rparr>"

text \<open>A slice lies within its backing array.\<close>

definition valid :: "heap \<Rightarrow> slice \<Rightarrow> bool" where
  "valid h s \<longleftrightarrow>
     s_arr s < length h \<and> s_off s + s_cap s \<le> length (h ! s_arr s) \<and> s_len s \<le> s_cap s"

text \<open>
  \<^verbatim>\<open>append\<close> writes in place when the capacity allows it, and otherwise copies the
  slice into a new backing array. How much larger the new array is than needed is left
  to the Go runtime: it is the parameter \<open>growslice\<close> (old capacity, needed length),
  and \<open>exact_fit\<close> is the choice of no extra room. The appended bytes are read before
  anything is written.
\<close>

definition exact_fit :: "nat \<Rightarrow> nat \<Rightarrow> nat" where
  "exact_fit old need = need"

definition appendBytes :: "(nat \<Rightarrow> nat \<Rightarrow> nat) \<Rightarrow> heap \<times> slice \<Rightarrow> string \<Rightarrow> heap \<times> slice" where
  "appendBytes growslice m bs =
     (let (h, d) = m; need = s_len d + length bs
      in if need \<le> s_cap d then
           (let a = h ! s_arr d; i = s_off d + s_len d
            in (h[s_arr d := take i a @ bs @ drop (i + length bs) a], d\<lparr>s_len := need\<rparr>))
         else
           (let c = max need (growslice (s_cap d) need)
            in (h @ [bytes h d @ bs @ replicate (c - need) (CHR 0x00)],
                \<lparr>s_arr = length h, s_off = 0, s_len = need, s_cap = c\<rparr>)))"

definition appendSlice :: "(nat \<Rightarrow> nat \<Rightarrow> nat) \<Rightarrow> heap \<times> slice \<Rightarrow> slice \<Rightarrow> heap \<times> slice" where
  "appendSlice growslice m s = appendBytes growslice m (bytes (fst m) s)"

text \<open>
  The loop, on a memory and a destination slice in it. The source slice is read from
  the memory as it is when the statement runs.
\<close>

function addExtraLabels_mem ::
  "(nat \<Rightarrow> nat \<Rightarrow> nat) \<Rightarrow> heap \<times> slice \<Rightarrow> slice \<Rightarrow> string \<Rightarrow> panic + heap \<times> slice" where
  "addExtraLabels_mem growslice m src extraLabels =
     (if s_len src > 0 then
        (let n = IndexByte (bytes (fst m) src) newline;
             (line, src') = (if n \<ge> 0 then (slice_to src (nat n), slice_from src (nat (n + 1)))
                             else (src, nil_slice));
             n = IndexByte (bytes (fst m) line) CHR ''{''
         in if n \<ge> 0 then
              (let m = appendSlice growslice m (slice_to line (nat (n + 1)));
                   m = appendBytes growslice m extraLabels;
                   m = appendBytes growslice m '','';
                   m = appendSlice growslice m (slice_from line (nat (n + 1)));
                   m = appendBytes growslice m [newline]
               in addExtraLabels_mem growslice m src' extraLabels)
            else
              (let n = LastIndexByte (bytes (fst m) line) CHR '' '' in
               if n < 0 then Inl (BUG_missing_whitespace (bytes (fst m) line))
               else
                 (let m = appendSlice growslice m (slice_to line (nat n));
                      m = appendBytes growslice m ''{'';
                      m = appendBytes growslice m extraLabels;
                      m = appendBytes growslice m ''}'';
                      m = appendSlice growslice m (slice_from line (nat n));
                      m = appendBytes growslice m [newline]
                  in addExtraLabels_mem growslice m src' extraLabels)))
      else Inr m)"
  by pat_completeness auto
termination
  by (relation "measure (\<lambda>(growslice, m, src, extraLabels). s_len src)")
    (auto simp: slice_from_def nil_slice_def split: if_splits)

declare addExtraLabels_mem.simps [simp del]

text \<open>The bytes of the slice that is returned.\<close>

definition result_bytes :: "panic + heap \<times> slice \<Rightarrow> panic + string" where
  "result_bytes r = (case r of Inl p \<Rightarrow> Inl p | Inr m \<Rightarrow> Inr (bytes (fst m) (snd m)))"

text \<open>The body of that loop for one line, as one function.\<close>

definition appendLine_mem ::
  "(nat \<Rightarrow> nat \<Rightarrow> nat) \<Rightarrow> heap \<times> slice \<Rightarrow> slice \<Rightarrow> string \<Rightarrow> panic + heap \<times> slice" where
  "appendLine_mem growslice m line el =
     (let n = IndexByte (bytes (fst m) line) CHR ''{''
      in if n \<ge> 0 then
           (let m = appendSlice growslice m (slice_to line (nat (n + 1)));
                m = appendBytes growslice m el;
                m = appendBytes growslice m '','';
                m = appendSlice growslice m (slice_from line (nat (n + 1)));
                m = appendBytes growslice m [newline]
            in Inr m)
         else
           (let n = LastIndexByte (bytes (fst m) line) CHR '' '' in
            if n < 0 then Inl (BUG_missing_whitespace (bytes (fst m) line))
            else
              (let m = appendSlice growslice m (slice_to line (nat n));
                   m = appendBytes growslice m ''{'';
                   m = appendBytes growslice m el;
                   m = appendBytes growslice m ''}'';
                   m = appendSlice growslice m (slice_from line (nat n));
                   m = appendBytes growslice m [newline]
               in Inr m)))"

text \<open>
  Appending to the destination cannot write into the backing array \<open>a\<close>: the
  destination lies in another array, or it has no capacity left, so that the first byte
  appended moves it to a new array.
\<close>

definition no_overlap :: "heap \<times> slice \<Rightarrow> nat \<Rightarrow> bool" where
  "no_overlap m a \<longleftrightarrow>
     valid (fst m) (snd m) \<and> a < length (fst m) \<and>
     (s_arr (snd m) \<noteq> a \<or> s_cap (snd m) = s_len (snd m))"

subsection \<open>initPush and the pushing goroutine\<close>

text \<open>
  What the goroutine started by \<^verbatim>\<open>initPush\<close> has captured. \<^verbatim>\<open>writeMetrics\<close> is a
  callback into the metrics set: the bytes it writes on a tick are an input of that tick.
\<close>

record goroutine =
  pushURL :: string
  interval :: Duration
  extraLabels :: string

text \<open>
  \<^verbatim>\<open>validateTags\<close> is defined in another file of the package; it is a parameter here,
  returning the error, if any.
\<close>

definition initPush ::
  "(string \<Rightarrow> string option) \<Rightarrow> string \<Rightarrow> Duration \<Rightarrow> string \<Rightarrow> panic + goroutine" where
  "initPush validateTags url ival labels =
     (if sint ival \<le> 0 then Inl (BUG_interval_must_be_positive ival)
      else (case validateTags labels of
              Some err \<Rightarrow> Inl (BUG_invalid_extraLabels labels err)
            | None \<Rightarrow> Inr \<lparr>pushURL = url, interval = ival, extraLabels = labels\<rparr>))"

text \<open>
  The result of \<^verbatim>\<open>http.Post\<close>: a non-nil error, or a response with its status code.
\<close>

datatype http_result = Transport_error string | Response int

text \<open>What a run does that can be seen from outside, in the order it does it.\<close>

datatype event =
    Go_func
  | NewTicker Duration
  | WriteMetrics string
  | AddExtraLabels
  | is_Http_Post: Http_Post string string string
  | Body_Close
  | Log_cannot_push string string
  | Log_unexpected_status string int

fun is_Log :: "event \<Rightarrow> bool" where
  "is_Log (Log_cannot_push u e) = True"
| "is_Log (Log_unexpected_status u c) = True"
| "is_Log _ = False"

text \<open>
  The request and what follows it in the loop body: the POST of the buffer, then a log
  line and \<^verbatim>\<open>continue\<close> on an error, or the closing of the body and a log line when
  \<^verbatim>\<open>resp.StatusCode/100 != 2\<close> (Go's \<^verbatim>\<open>/\<close> truncates towards zero: \<open>sdiv\<close>). Every path
  ends the iteration.
\<close>

definition Post :: "goroutine \<Rightarrow> string \<Rightarrow> http_result \<Rightarrow> event list" where
  "Post g bb result =
     Http_Post (pushURL g) ''text/plain'' bb #
     (case result of
        Transport_error err \<Rightarrow> [Log_cannot_push (pushURL g) err]
      | Response StatusCode \<Rightarrow>
          Body_Close #
          (if StatusCode sdiv 100 \<noteq> 2 then [Log_unexpected_status (pushURL g) StatusCode]
           else []))"

text \<open>
  One iteration of \<^verbatim>\<open>for range ticker.C\<close>. The buffer \<open>bb\<close> is reset when the
  iteration starts, so only \<open>tmpBuf\<close> is carried from one iteration to the next. The
  result is the events of the iteration and either the panic that ended it or the new
  \<open>tmpBuf\<close>.
\<close>

definition tick ::
  "goroutine \<Rightarrow> string \<Rightarrow> string \<times> http_result \<Rightarrow> event list \<times> (panic + string)" where
  "tick g tmpBuf input =
     (let (snapshot, result) = input;
          bb = [];
          bb = bb @ snapshot;
          ev = [WriteMetrics snapshot]
      in if length (extraLabels g) > 0 then
           (case addExtraLabels (take 0 tmpBuf) bb (extraLabels g) of
              Inl p \<Rightarrow> (ev @ [AddExtraLabels], Inl p)
            | Inr tmpBuf' \<Rightarrow>
                (let bb = [];
                     bb = bb @ tmpBuf'
                 in (ev @ [AddExtraLabels] @ Post g bb result, Inr tmpBuf')))
         else (ev @ Post g bb result, Inr tmpBuf))"

text \<open>The loop over the ticks that arrive; it has no exit of its own.\<close>

fun pushLoop ::
  "goroutine \<Rightarrow> string \<Rightarrow> (string \<times> http_result) list \<Rightarrow> event list \<times> (panic + string)" where
  "pushLoop g tmpBuf [] = ([], Inr tmpBuf)"
| "pushLoop g tmpBuf (t # ts) =
     (case tick g tmpBuf t of
        (ev, Inl p) \<Rightarrow> (ev, Inl p)
      | (ev, Inr tmpBuf') \<Rightarrow>
          (case pushLoop g tmpBuf' ts of (ev', r) \<Rightarrow> (ev @ ev', r)))"

text \<open>
  A call of \<^verbatim>\<open>initPush\<close> followed by the given ticks: nothing at all when the call
  panics, the goroutine with its ticker and its loop otherwise.
\<close>

definition run ::
  "(string \<Rightarrow> string option) \<Rightarrow> string \<Rightarrow> Duration \<Rightarrow> string \<Rightarrow>
   (string \<times> http_result) list \<Rightarrow> event list \<times> (panic + string)" where
  "run validateTags url ival labels ticks =
     (case initPush validateTags url ival labels of
        Inl p \<Rightarrow> ([], Inl p)
      | Inr g \<Rightarrow>
          (case pushLoop g [] ticks of
             (ev, r) \<Rightarrow> (Go_func # NewTicker (interval g) # ev, r)))"

section \<open>Properties of the transform\<close>

subsection \<open>Searching a byte\<close>

lemma IndexByte_bounds: "-1 \<le> IndexByte s c \<and> IndexByte s c < int (length s)"
  by (induction s) (auto simp: Let_def)

lemma LastIndexByte_bounds: "-1 \<le> LastIndexByte s c \<and> LastIndexByte s c < int (length s)"
  by (induction s) (auto simp: Let_def)

lemma IndexByte_absent: "c \<notin> set s \<Longrightarrow> IndexByte s c = -1"
  by (induction s) auto

lemma IndexByte_first: "c \<notin> set pre \<Longrightarrow> IndexByte (pre @ c # post) c = int (length pre)"
  by (induction pre) (auto simp: Let_def)

lemma LastIndexByte_absent: "c \<notin> set s \<Longrightarrow> LastIndexByte s c = -1"
  by (induction s) auto

lemma LastIndexByte_last: "c \<notin> set post \<Longrightarrow> LastIndexByte (pre @ c # post) c = int (length pre)"
  by (induction pre) (auto simp: Let_def LastIndexByte_absent)

lemma nat_int_Suc: "nat (int n + 1) = Suc n"
  by arith

lemma addExtraLabels_Nil: "addExtraLabels dst [] el = Inr dst"
  by (simp add: addExtraLabels.simps)

lemma addExtraLabels_terminated:
  assumes "newline \<notin> set line"
  shows "addExtraLabels dst (line @ newline # rest) el =
    (case appendLine dst line el of Inl p \<Rightarrow> Inl p | Inr dst' \<Rightarrow> addExtraLabels dst' rest el)"
  using assms
  by (subst addExtraLabels.simps)
    (simp add: IndexByte_first appendLine_def Let_def nat_int_Suc)

lemma addExtraLabels_unterminated:
  assumes "newline \<notin> set line" "line \<noteq> []"
  shows "addExtraLabels dst line el = appendLine dst line el"
  using assms
  by (subst addExtraLabels.simps)
    (simp add: IndexByte_absent appendLine_def Let_def addExtraLabels_Nil)

lemma appendLine_brace:
  "CHR ''{'' \<notin> set pre \<Longrightarrow>
   appendLine dst (pre @ CHR ''{'' # post) el = Inr (dst @ pre @ ''{'' @ el @ '','' @ post @ [newline])"
  by (simp add: appendLine_def IndexByte_first nat_int_Suc)

lemma appendLine_space:
  "CHR ''{'' \<notin> set name \<Longrightarrow> CHR ''{'' \<notin> set val \<Longrightarrow> CHR '' '' \<notin> set val \<Longrightarrow>
   appendLine dst (name @ CHR '' '' # val) el =
     Inr (dst @ name @ ''{'' @ el @ ''}'' @ CHR '' '' # val @ [newline])"
  by (simp add: appendLine_def IndexByte_absent LastIndexByte_last)

lemma appendLine_malformed:
  "CHR ''{'' \<notin> set line \<Longrightarrow> CHR '' '' \<notin> set line \<Longrightarrow>
   appendLine dst line el = Inl (BUG_missing_whitespace line)"
  by (simp add: appendLine_def IndexByte_absent LastIndexByte_absent)


lemma lines_of_unterminated:
  "newline \<notin> set line \<Longrightarrow> line \<noteq> [] \<Longrightarrow> lines_of line = [line]"
proof (induction line)
  case Nil
  then show ?case by simp
next
  case (Cons c cs)
  then show ?case by (cases "cs = []") auto
qed

lemma lines_of_terminated:
  "newline \<notin> set line \<Longrightarrow> lines_of (line @ newline # rest) = line # lines_of rest"
  by (induction line) auto

lemma block_induct [case_names Empty Last Line]:
  assumes empty: "P []"
    and last: "\<And>line. newline \<notin> set line \<Longrightarrow> line \<noteq> [] \<Longrightarrow> P line"
    and line: "\<And>line rest. newline \<notin> set line \<Longrightarrow> P rest \<Longrightarrow> P (line @ newline # rest)"
  shows "P src"
proof (induction src rule: length_induct)
  case (1 src)
  show ?case
  proof (cases "newline \<in> set src")
    case True
    then obtain line rest where split: "src = line @ newline # rest" "newline \<notin> set line"
      by (auto dest: split_list_first)
    then have "length rest < length src" by simp
    with 1 have "P rest" by blast
    with split show ?thesis by (simp add: line)
  next
    case False
    then show ?thesis by (cases "src = []") (auto intro: empty last)
  qed
qed

lemma lines_of_no_newline: "l \<in> set (lines_of src) \<Longrightarrow> newline \<notin> set l"
proof (induction src arbitrary: l rule: block_induct)
  case Empty
  then show ?case by simp
next
  case (Last line)
  then show ?case by (simp add: lines_of_unterminated)
next
  case (Line line rest)
  then show ?case by (auto simp: lines_of_terminated)
qed

text \<open>
  The loop is the body applied to the lines of the source in turn, stopping at the first
  panic: \<open>lines_of\<close> cuts the source where the loop does.
\<close>

lemma foldl_panic:
  "foldl (\<lambda>r line. case r of Inl p \<Rightarrow> Inl p | Inr d \<Rightarrow> appendLine d line el) (Inl p) ls = Inl p"
  by (induction ls) simp_all

lemma addExtraLabels_by_lines:
  "addExtraLabels dst src el =
     foldl (\<lambda>r line. case r of Inl p \<Rightarrow> Inl p | Inr d \<Rightarrow> appendLine d line el)
       (Inr dst) (lines_of src)"
proof (induction src arbitrary: dst rule: block_induct)
  case Empty
  show ?case by (simp add: addExtraLabels_Nil)
next
  case (Last line)
  then show ?case by (simp add: addExtraLabels_unterminated lines_of_unterminated)
next
  case (Line line rest)
  then show ?case
    by (cases "appendLine dst line el")
      (simp_all add: addExtraLabels_terminated lines_of_terminated foldl_panic)
qed

lemma appendLine_isl_iff:
  "isl (appendLine dst line el) \<longleftrightarrow> CHR ''{'' \<notin> set line \<and> CHR '' '' \<notin> set line"
proof (cases "CHR ''{'' \<in> set line")
  case True
  then obtain pre post where "line = pre @ CHR ''{'' # post" "CHR ''{'' \<notin> set pre"
    by (auto dest: split_list_first)
  with True show ?thesis using appendLine_brace [of pre dst post el] by simp
next
  case nobrace: False
  show ?thesis
  proof (cases "CHR '' '' \<in> set line")
    case True
    then obtain name val where "line = name @ CHR '' '' # val" "CHR '' '' \<notin> set val"
      by (auto dest: split_list_last)
    with nobrace True show ?thesis using appendLine_space [of name val dst el] by simp
  next
    case False
    with nobrace show ?thesis by (simp add: appendLine_malformed)
  qed
qed

lemma appendLine_first_malformed:
  "appendLine dst line el = Inl p \<Longrightarrow>
   p = BUG_missing_whitespace line \<and> CHR ''{'' \<notin> set line \<and> CHR '' '' \<notin> set line"
  using appendLine_isl_iff [of dst line el] appendLine_malformed [of line dst el]
  by (cases "CHR ''{'' \<in> set line \<or> CHR '' '' \<in> set line") auto

lemma addExtraLabels_panics_iff:
  "isl (addExtraLabels dst src el) \<longleftrightarrow>
   (\<exists>line\<in>set (lines_of src). CHR ''{'' \<notin> set line \<and> CHR '' '' \<notin> set line)"
proof (induction src arbitrary: dst rule: block_induct)
  case Empty
  then show ?case by (simp add: addExtraLabels_Nil)
next
  case (Last line)
  then show ?case
    by (simp add: addExtraLabels_unterminated lines_of_unterminated appendLine_isl_iff)
next
  case (Line line rest)
  show ?case
  proof (cases "appendLine dst line el")
    case (Inl p)
    with Line(1) show ?thesis
      using appendLine_isl_iff [of dst line el]
      by (simp add: addExtraLabels_terminated lines_of_terminated)
  next
    case (Inr dst')
    with Line show ?thesis
      using appendLine_isl_iff [of dst line el]
      by (auto simp: addExtraLabels_terminated lines_of_terminated)
  qed
qed

lemma addExtraLabels_panic_line:
  "addExtraLabels dst src el = Inl p \<Longrightarrow>
   \<exists>line\<in>set (lines_of src).
     p = BUG_missing_whitespace line \<and> CHR ''{'' \<notin> set line \<and> CHR '' '' \<notin> set line"
proof (induction src arbitrary: dst rule: block_induct)
  case Empty
  then show ?case by (simp add: addExtraLabels_Nil)
next
  case (Last line)
  then show ?case
    by (auto simp: addExtraLabels_unterminated lines_of_unterminated
        dest: appendLine_first_malformed)
next
  case (Line line rest)
  show ?case
  proof (cases "appendLine dst line el")
    case (Inl q)
    with Line(1,3) show ?thesis
      by (auto simp: addExtraLabels_terminated lines_of_terminated
          dest: appendLine_first_malformed)
  next
    case (Inr dst')
    with Line(1,3) have "addExtraLabels dst' rest el = Inl p"
      by (simp add: addExtraLabels_terminated)
    from Line(2) [OF this] Line(1) show ?thesis
      by (auto simp: lines_of_terminated)
  qed
qed

lemma appendLine_dst:
  "appendLine dst line el =
     (case appendLine [] line el of Inl p \<Rightarrow> Inl p | Inr out \<Rightarrow> Inr (dst @ out))"
  by (simp add: appendLine_def Let_def)

lemma addExtraLabels_dst:
  "addExtraLabels dst src el =
     (case addExtraLabels [] src el of Inl p \<Rightarrow> Inl p | Inr out \<Rightarrow> Inr (dst @ out))"
proof (induction src arbitrary: dst rule: block_induct)
  case Empty
  then show ?case by (simp add: addExtraLabels_Nil)
next
  case (Last line)
  then show ?case
    using appendLine_dst [of dst line el] by (simp add: addExtraLabels_unterminated)
next
  case (Line line rest)
  show ?case
  proof (cases "appendLine [] line el")
    case (Inl p)
    with Line(1) show ?thesis
      using appendLine_dst [of dst line el] by (simp add: addExtraLabels_terminated)
  next
    case (Inr out)
    then have "appendLine dst line el = Inr (dst @ out)"
      using appendLine_dst [of dst line el] by simp
    with Inr Line(1) show ?thesis
      using Line(2) [of "dst @ out"] Line(2) [of out]
      by (cases "addExtraLabels [] rest el") (simp_all add: addExtraLabels_terminated)
  qed
qed

lemma lines_of_double_newline: "[] \<in> set (lines_of (a @ newline # newline # b))"
proof (induction a rule: block_induct)
  case Empty
  then show ?case by simp
next
  case (Last line)
  then show ?case using lines_of_terminated [of line "newline # b"] by simp
next
  case (Line line rest)
  then show ?case using lines_of_terminated [of line "rest @ newline # newline # b"] by simp
qed

lemma appendLine_valid:
  assumes "CHR ''{'' \<in> set l \<or> CHR '' '' \<in> set l" and "newline \<notin> set l" and "newline \<notin> set el"
  shows "\<exists>out. newline \<notin> set out \<and> (\<forall>dst. appendLine dst l el = Inr (dst @ out @ [newline]))"
proof (cases "CHR ''{'' \<in> set l")
  case True
  then obtain pre post where split: "l = pre @ CHR ''{'' # post" "CHR ''{'' \<notin> set pre"
    by (auto dest: split_list_first)
  with assms(2,3) have "newline \<notin> set (pre @ ''{'' @ el @ '','' @ post)" by simp
  moreover from split have "\<forall>dst. appendLine dst l el = Inr (dst @ (pre @ ''{'' @ el @ '','' @ post) @ [newline])"
    by (simp add: appendLine_brace)
  ultimately show ?thesis by blast
next
  case False
  with assms(1) obtain name val where split: "l = name @ CHR '' '' # val" "CHR '' '' \<notin> set val"
    by (auto dest: split_list_last)
  with assms(2,3) have "newline \<notin> set (name @ ''{'' @ el @ ''}'' @ CHR '' '' # val)" by simp
  moreover from split False
  have "\<forall>dst. appendLine dst l el = Inr (dst @ (name @ ''{'' @ el @ ''}'' @ CHR '' '' # val) @ [newline])"
    by (simp add: appendLine_space)
  ultimately show ?thesis by blast
qed

lemma lines_of_terminated_lines:
  "\<forall>l\<in>set ls. newline \<notin> set l \<Longrightarrow> lines_of (concat (map (\<lambda>l. l @ [newline]) ls)) = ls"
  by (induction ls) (simp_all add: lines_of_terminated)

lemma addExtraLabels_valid:
  assumes "\<forall>l\<in>set (lines_of src). CHR ''{'' \<in> set l \<or> CHR '' '' \<in> set l"
    and "newline \<notin> set el"
  shows "\<exists>outs. addExtraLabels dst src el = Inr (dst @ concat (map (\<lambda>l. l @ [newline]) outs)) \<and>
           list_all2 (\<lambda>l out. newline \<notin> set out \<and> appendLine [] l el = Inr (out @ [newline]))
             (lines_of src) outs"
  using assms(1)
proof (induction src arbitrary: dst rule: block_induct)
  case Empty
  show ?case by (intro exI [of _ "[]"]) (simp add: addExtraLabels_Nil)
next
  case (Last line)
  then have "CHR ''{'' \<in> set line \<or> CHR '' '' \<in> set line"
    by (simp add: lines_of_unterminated)
  from appendLine_valid [OF this Last(1) assms(2)]
  obtain out where out: "newline \<notin> set out" "\<And>dst. appendLine dst line el = Inr (dst @ out @ [newline])"
    by blast
  from Last(1,2) out(1) out(2) [of dst] out(2) [of "[]"] show ?case
    by (intro exI [of _ "[out]"]) (simp add: addExtraLabels_unterminated lines_of_unterminated)
next
  case (Line line rest)
  then have valid: "CHR ''{'' \<in> set line \<or> CHR '' '' \<in> set line"
    and rest: "\<forall>l\<in>set (lines_of rest). CHR ''{'' \<in> set l \<or> CHR '' '' \<in> set l"
    by (simp_all add: lines_of_terminated)
  from appendLine_valid [OF valid Line(1) assms(2)]
  obtain out where out: "newline \<notin> set out" "\<And>dst. appendLine dst line el = Inr (dst @ out @ [newline])"
    by blast
  from Line(2) [OF rest, of "dst @ out @ [newline]"]
  obtain outs where outs:
    "addExtraLabels (dst @ out @ [newline]) rest el
       = Inr ((dst @ out @ [newline]) @ concat (map (\<lambda>l. l @ [newline]) outs))"
    "list_all2 (\<lambda>l out. newline \<notin> set out \<and> appendLine [] l el = Inr (out @ [newline]))
       (lines_of rest) outs"
    by blast
  from Line(1) out(1) out(2) [of dst] out(2) [of "[]"] outs show ?case
    by (intro exI [of _ "out # outs"]) (simp add: addExtraLabels_terminated lines_of_terminated)
qed

subsection \<open>The two shapes of a line\<close>

text \<open>
  C1. A line that contains \<open>{\<close> is written as its text up to and including the first
  \<open>{\<close>, the extra labels, a comma, the rest of the line and a newline, whether the line
  is the unterminated last one or is followed by a newline and more lines. The line
  \<^verbatim>\<open>foo{a="1"} 5\<close> with the labels \<^verbatim>\<open>b="2"\<close> becomes \<^verbatim>\<open>foo{b="2",a="1"} 5\<close> and a
  newline.
\<close>

theorem addExtraLabels_existing_labels:
  assumes "CHR ''{'' \<in> set line" and "newline \<notin> set line"
  shows "(\<exists>pre post. line = pre @ CHR ''{'' # post \<and> CHR ''{'' \<notin> set pre \<and>
            (\<forall>dst el rest.
               addExtraLabels dst line el =
                 Inr (dst @ pre @ ''{'' @ el @ '','' @ post @ [newline]) \<and>
               addExtraLabels dst (line @ newline # rest) el =
                 addExtraLabels (dst @ pre @ ''{'' @ el @ '','' @ post @ [newline]) rest el)) \<and>
         addExtraLabels [] ''foo{a=\"1\"} 5'' ''b=\"2\"'' = Inr ''foo{b=\"2\",a=\"1\"} 5\<newline>''"
proof
  from assms(1) obtain pre post where split: "line = pre @ CHR ''{'' # post" "CHR ''{'' \<notin> set pre"
    by (auto dest: split_list_first)
  from assms(2) split(1) have "line \<noteq> []" by simp
  with assms(2) split show "\<exists>pre post. line = pre @ CHR ''{'' # post \<and> CHR ''{'' \<notin> set pre \<and>
            (\<forall>dst el rest.
               addExtraLabels dst line el =
                 Inr (dst @ pre @ ''{'' @ el @ '','' @ post @ [newline]) \<and>
               addExtraLabels dst (line @ newline # rest) el =
                 addExtraLabels (dst @ pre @ ''{'' @ el @ '','' @ post @ [newline]) rest el)"
    using addExtraLabels_unterminated [of line] addExtraLabels_terminated [of line]
      appendLine_brace [of pre _ post]
    by (intro exI [of _ pre] exI [of _ post]) simp
next
  show "addExtraLabels [] ''foo{a=\"1\"} 5'' ''b=\"2\"'' = Inr ''foo{b=\"2\",a=\"1\"} 5\<newline>''"
    by (simp add: addExtraLabels.simps)
qed

theorem addExtraLabels_existing_labels_witness:
  "CHR ''{'' \<in> set ''up{job=\"db\"} 1'' \<and> newline \<notin> set ''up{job=\"db\"} 1'' \<and>
   (\<exists>pre post. ''up{job=\"db\"} 1'' = pre @ CHR ''{'' # post \<and> CHR ''{'' \<notin> set pre \<and>
      addExtraLabels [] ''up{job=\"db\"} 1'' ''env=\"p\"''
        = Inr ([] @ pre @ ''{'' @ ''env=\"p\"'' @ '','' @ post @ [newline]))"
proof -
  have h1: "CHR ''{'' \<in> set ''up{job=\"db\"} 1''" by simp
  have h2: "newline \<notin> set ''up{job=\"db\"} 1''" by simp
  from addExtraLabels_existing_labels [OF h1 h2] h1 h2 show ?thesis by blast
qed

text \<open>
  C2. A line with no \<open>{\<close> and at least one space is written as its text before the last
  space, \<open>{\<close>, the extra labels, \<open>}\<close>, the last space with what follows it, and a
  newline. The line \<^verbatim>\<open>foo 5\<close> with the labels \<^verbatim>\<open>b="2"\<close> becomes \<^verbatim>\<open>foo{b="2"} 5\<close>
  and a newline.
\<close>

theorem addExtraLabels_no_labels:
  assumes "CHR ''{'' \<notin> set line" and "CHR '' '' \<in> set line" and "newline \<notin> set line"
  shows "(\<exists>name val. line = name @ CHR '' '' # val \<and> CHR '' '' \<notin> set val \<and>
            (\<forall>dst el rest.
               addExtraLabels dst line el =
                 Inr (dst @ name @ ''{'' @ el @ ''}'' @ CHR '' '' # val @ [newline]) \<and>
               addExtraLabels dst (line @ newline # rest) el =
                 addExtraLabels (dst @ name @ ''{'' @ el @ ''}'' @ CHR '' '' # val @ [newline])
                   rest el)) \<and>
         addExtraLabels [] ''foo 5'' ''b=\"2\"'' = Inr ''foo{b=\"2\"} 5\<newline>''"
proof
  from assms(2) obtain name val where split: "line = name @ CHR '' '' # val" "CHR '' '' \<notin> set val"
    by (auto dest: split_list_last)
  from split(1) have "line \<noteq> []" by simp
  moreover from assms(1) split(1) have "CHR ''{'' \<notin> set name" "CHR ''{'' \<notin> set val" by simp_all
  ultimately show "\<exists>name val. line = name @ CHR '' '' # val \<and> CHR '' '' \<notin> set val \<and>
            (\<forall>dst el rest.
               addExtraLabels dst line el =
                 Inr (dst @ name @ ''{'' @ el @ ''}'' @ CHR '' '' # val @ [newline]) \<and>
               addExtraLabels dst (line @ newline # rest) el =
                 addExtraLabels (dst @ name @ ''{'' @ el @ ''}'' @ CHR '' '' # val @ [newline])
                   rest el)"
    using assms(3) split addExtraLabels_unterminated [of line]
      addExtraLabels_terminated [of line] appendLine_space [of name val]
    by (intro exI [of _ name] exI [of _ val]) simp
next
  show "addExtraLabels [] ''foo 5'' ''b=\"2\"'' = Inr ''foo{b=\"2\"} 5\<newline>''"
    by (simp add: addExtraLabels.simps)
qed

theorem addExtraLabels_no_labels_witness:
  "CHR ''{'' \<notin> set ''up 1'' \<and> CHR '' '' \<in> set ''up 1'' \<and> newline \<notin> set ''up 1'' \<and>
   (\<exists>name val. ''up 1'' = name @ CHR '' '' # val \<and> CHR '' '' \<notin> set val \<and>
      addExtraLabels [] ''up 1'' ''env=\"p\"''
        = Inr ([] @ name @ ''{'' @ ''env=\"p\"'' @ ''}'' @ CHR '' '' # val @ [newline]))"
proof -
  have h1: "CHR ''{'' \<notin> set ''up 1''" by simp
  have h2: "CHR '' '' \<in> set ''up 1''" by simp
  have h3: "newline \<notin> set ''up 1''" by simp
  from addExtraLabels_no_labels [OF h1 h2 h3] h1 h2 h3 show ?thesis by blast
qed

subsection \<open>Lines that cannot be rewritten\<close>

text \<open>
  C3. The transform panics exactly when some line of the block has neither \<open>{\<close> nor a
  space: if there is such a line, the result is the panic about one of them (the first
  the loop reaches), and if every line has a \<open>{\<close> or a space, the transform returns
  its output. A malformed line at the head of the block, or alone in it, is the line
  named in the panic.
\<close>

theorem addExtraLabels_malformed_line:
  "((\<exists>line\<in>set (lines_of src). CHR ''{'' \<notin> set line \<and> CHR '' '' \<notin> set line) \<longrightarrow>
      (\<exists>line\<in>set (lines_of src). CHR ''{'' \<notin> set line \<and> CHR '' '' \<notin> set line \<and>
         addExtraLabels dst src el = Inl (BUG_missing_whitespace line))) \<and>
   ((\<forall>line\<in>set (lines_of src). CHR ''{'' \<in> set line \<or> CHR '' '' \<in> set line) \<longrightarrow>
      (\<exists>out. addExtraLabels dst src el = Inr out)) \<and>
   (newline \<notin> set line \<and> CHR ''{'' \<notin> set line \<and> CHR '' '' \<notin> set line \<longrightarrow>
      addExtraLabels dst (line @ newline # rest) el = Inl (BUG_missing_whitespace line) \<and>
      (line \<noteq> [] \<longrightarrow> addExtraLabels dst line el = Inl (BUG_missing_whitespace line)))"
proof (intro conjI impI)
  assume "\<exists>line\<in>set (lines_of src). CHR ''{'' \<notin> set line \<and> CHR '' '' \<notin> set line"
  then have "isl (addExtraLabels dst src el)" by (simp add: addExtraLabels_panics_iff)
  then obtain p where "addExtraLabels dst src el = Inl p" by (auto simp: isl_def)
  then show "\<exists>line\<in>set (lines_of src). CHR ''{'' \<notin> set line \<and> CHR '' '' \<notin> set line \<and>
         addExtraLabels dst src el = Inl (BUG_missing_whitespace line)"
    using addExtraLabels_panic_line [of dst src el p] by auto
next
  assume "\<forall>line\<in>set (lines_of src). CHR ''{'' \<in> set line \<or> CHR '' '' \<in> set line"
  then have "\<not> isl (addExtraLabels dst src el)" by (auto simp: addExtraLabels_panics_iff)
  then show "\<exists>out. addExtraLabels dst src el = Inr out"
    by (cases "addExtraLabels dst src el") auto
next
  assume "newline \<notin> set line \<and> CHR ''{'' \<notin> set line \<and> CHR '' '' \<notin> set line"
  then show "addExtraLabels dst (line @ newline # rest) el = Inl (BUG_missing_whitespace line)"
    by (simp add: addExtraLabels_terminated appendLine_malformed)
next
  assume "newline \<notin> set line \<and> CHR ''{'' \<notin> set line \<and> CHR '' '' \<notin> set line" "line \<noteq> []"
  then show "addExtraLabels dst line el = Inl (BUG_missing_whitespace line)"
    by (simp add: addExtraLabels_unterminated appendLine_malformed)
qed

theorem addExtraLabels_malformed_line_witness:
  "lines_of ''foo 5\<newline>bar\<newline>baz 1'' = [''foo 5'', ''bar'', ''baz 1''] \<and>
   addExtraLabels [] ''foo 5\<newline>bar\<newline>baz 1'' ''b=\"2\"'' = Inl (BUG_missing_whitespace ''bar'') \<and>
   lines_of ''foo 5\<newline>baz{x=\"y\"} 1'' = [''foo 5'', ''baz{x=\"y\"} 1''] \<and>
   (\<exists>out. addExtraLabels [] ''foo 5\<newline>baz{x=\"y\"} 1'' ''b=\"2\"'' = Inr out) \<and>
   addExtraLabels [] (''bar'' @ newline # ''baz 1'') ''b=\"2\"'' = Inl (BUG_missing_whitespace ''bar'')"
proof -
  have h1: "\<exists>line\<in>set (lines_of ''foo 5\<newline>bar\<newline>baz 1'').
      CHR ''{'' \<notin> set line \<and> CHR '' '' \<notin> set line" by simp
  have h2: "\<forall>line\<in>set (lines_of ''foo 5\<newline>baz{x=\"y\"} 1'').
      CHR ''{'' \<in> set line \<or> CHR '' '' \<in> set line" by simp
  have h3: "newline \<notin> set ''bar'' \<and> CHR ''{'' \<notin> set ''bar'' \<and> CHR '' '' \<notin> set ''bar''" by simp
  have l1: "lines_of ''foo 5\<newline>bar\<newline>baz 1'' = [''foo 5'', ''bar'', ''baz 1'']" by simp
  have l2: "lines_of ''foo 5\<newline>baz{x=\"y\"} 1'' = [''foo 5'', ''baz{x=\"y\"} 1'']" by simp
  have e: "addExtraLabels [] ''foo 5\<newline>bar\<newline>baz 1'' ''b=\"2\"'' = Inl (BUG_missing_whitespace ''bar'')"
    using addExtraLabels_malformed_line [of "''foo 5\<newline>bar\<newline>baz 1''" "[]" "''b=\"2\"''"] h1
    by (simp add: addExtraLabels.simps)
  show ?thesis
    using h1 h2 h3 l1 l2 e
      addExtraLabels_malformed_line [of "''foo 5\<newline>baz{x=\"y\"} 1''" "[]" "''b=\"2\"''" "''bar''" "''baz 1''"]
    by blast
qed

text \<open>
  C9. A block with an empty line makes the transform panic: the empty line has neither
  \<open>{\<close> nor a space. This covers two newlines in a row anywhere in the block, and a
  newline at the start of the block, where the panic names the empty line.
\<close>

theorem addExtraLabels_empty_line:
  "([] \<in> set (lines_of src) \<longrightarrow> (\<exists>p. addExtraLabels dst src el = Inl p)) \<and>
   (\<exists>p. addExtraLabels dst (a @ newline # newline # b) el = Inl p) \<and>
   addExtraLabels dst (newline # b) el = Inl (BUG_missing_whitespace [])"
proof (intro conjI impI)
  assume "[] \<in> set (lines_of src)"
  then have "\<exists>line\<in>set (lines_of src). CHR ''{'' \<notin> set line \<and> CHR '' '' \<notin> set line"
    by (intro bexI [of _ "[]"]) simp_all
  then have "isl (addExtraLabels dst src el)" by (simp add: addExtraLabels_panics_iff)
  then show "\<exists>p. addExtraLabels dst src el = Inl p" by (auto simp: isl_def)
next
  have "\<exists>line\<in>set (lines_of (a @ newline # newline # b)).
      CHR ''{'' \<notin> set line \<and> CHR '' '' \<notin> set line"
    using lines_of_double_newline [of a b] by (intro bexI [of _ "[]"]) simp_all
  then have "isl (addExtraLabels dst (a @ newline # newline # b) el)"
    by (simp add: addExtraLabels_panics_iff)
  then show "\<exists>p. addExtraLabels dst (a @ newline # newline # b) el = Inl p"
    by (auto simp: isl_def)
next
  show "addExtraLabels dst (newline # b) el = Inl (BUG_missing_whitespace [])"
    using addExtraLabels_terminated [of "[]" dst b el] by (simp add: appendLine_malformed)
qed

theorem addExtraLabels_empty_line_witness:
  "[] \<in> set (lines_of ''foo 5\<newline>\<newline>bar 6'') \<and>
   addExtraLabels [] ''foo 5\<newline>\<newline>bar 6'' ''b=\"2\"'' = Inl (BUG_missing_whitespace [])"
proof -
  have h: "[] \<in> set (lines_of ''foo 5\<newline>\<newline>bar 6'')" by simp
  show ?thesis
    using h addExtraLabels_empty_line [of "''foo 5\<newline>\<newline>bar 6''" "[]" "''b=\"2\"''"]
    by (simp add: addExtraLabels.simps)
qed

subsection \<open>Lines in, lines out\<close>

text \<open>
  C4, for extra labels without a newline byte. When every line of the block has a \<open>{\<close>
  or a space, the transform returns an output with as many lines as the block, the
  \<open>i\<close>-th output line with its newline being what the transform writes for the \<open>i\<close>-th
  input line alone, and the output is its lines, each followed by a newline; the last
  input line counts whether or not a newline ends it.
\<close>

theorem addExtraLabels_line_count:
  assumes "\<forall>l\<in>set (lines_of src). CHR ''{'' \<in> set l \<or> CHR '' '' \<in> set l"
    and "newline \<notin> set el"
  shows "\<exists>out. addExtraLabels [] src el = Inr out \<and>
           length (lines_of out) = length (lines_of src) \<and>
           (\<forall>i<length (lines_of src).
              addExtraLabels [] (lines_of src ! i) el = Inr (lines_of out ! i @ [newline])) \<and>
           out = concat (map (\<lambda>l. l @ [newline]) (lines_of out))"
proof -
  from addExtraLabels_valid [OF assms, of "[]"]
  obtain outs where outs:
    "addExtraLabels [] src el = Inr (concat (map (\<lambda>l. l @ [newline]) outs))"
    "list_all2 (\<lambda>l out. newline \<notin> set out \<and> appendLine [] l el = Inr (out @ [newline]))
       (lines_of src) outs"
    by auto
  let ?out = "concat (map (\<lambda>l. l @ [newline]) outs)"
  from outs(2) have "\<forall>l\<in>set outs. newline \<notin> set l"
    by (auto simp: list_all2_conv_all_nth in_set_conv_nth)
  then have lines: "lines_of ?out = outs" by (rule lines_of_terminated_lines)
  have len: "length outs = length (lines_of src)"
    using outs(2) by (simp add: list_all2_lengthD)
  have nth: "addExtraLabels [] (lines_of src ! i) el = Inr (outs ! i @ [newline])"
    if "i < length (lines_of src)" for i
  proof -
    from that have mem: "lines_of src ! i \<in> set (lines_of src)" by simp
    then have "newline \<notin> set (lines_of src ! i)" by (rule lines_of_no_newline)
    moreover from mem assms(1) have "lines_of src ! i \<noteq> []" by auto
    moreover from outs(2) that have "appendLine [] (lines_of src ! i) el = Inr (outs ! i @ [newline])"
      by (simp add: list_all2_conv_all_nth)
    ultimately show ?thesis by (simp add: addExtraLabels_unterminated)
  qed
  from outs(1) lines len nth show ?thesis
    by (intro exI [of _ ?out]) simp
qed

theorem addExtraLabels_line_count_witness:
  "lines_of ''foo 5\<newline>bar{x=\"1\"} 2'' = [''foo 5'', ''bar{x=\"1\"} 2''] \<and>
   newline \<notin> set ''b=\"2\"'' \<and>
   (\<exists>out. addExtraLabels [] ''foo 5\<newline>bar{x=\"1\"} 2'' ''b=\"2\"'' = Inr out \<and>
           length (lines_of out) = length (lines_of ''foo 5\<newline>bar{x=\"1\"} 2'') \<and>
           out = concat (map (\<lambda>l. l @ [newline]) (lines_of out))) \<and>
   addExtraLabels [] ''foo 5\<newline>bar{x=\"1\"} 2'' ''b=\"2\"''
     = Inr ''foo{b=\"2\"} 5\<newline>bar{b=\"2\",x=\"1\"} 2\<newline>''"
proof -
  have h1: "\<forall>l\<in>set (lines_of ''foo 5\<newline>bar{x=\"1\"} 2''). CHR ''{'' \<in> set l \<or> CHR '' '' \<in> set l"
    by simp
  have h2: "newline \<notin> set ''b=\"2\"''" by simp
  have l: "lines_of ''foo 5\<newline>bar{x=\"1\"} 2'' = [''foo 5'', ''bar{x=\"1\"} 2'']" by simp
  have e: "addExtraLabels [] ''foo 5\<newline>bar{x=\"1\"} 2'' ''b=\"2\"''
     = Inr ''foo{b=\"2\"} 5\<newline>bar{b=\"2\",x=\"1\"} 2\<newline>''"
    by (simp add: addExtraLabels.simps)
  from addExtraLabels_line_count [OF h1 h2] h2 l e show ?thesis by blast
qed

text \<open>
  The restriction on the extra labels is needed: a newline byte inside a label value is
  copied into the output, and the one input line \<^verbatim>\<open>foo 5\<close> comes out as two lines.
\<close>

theorem addExtraLabels_line_count_counterexample:
  "lines_of ''foo 5'' = [''foo 5''] \<and> CHR '' '' \<in> set ''foo 5'' \<and>
   addExtraLabels [] ''foo 5'' ''a=\"x\<newline>y\"'' = Inr ''foo{a=\"x\<newline>y\"} 5\<newline>'' \<and>
   lines_of ''foo{a=\"x\<newline>y\"} 5\<newline>'' = [''foo{a=\"x'', ''y\"} 5''] \<and>
   length (lines_of ''foo{a=\"x\<newline>y\"} 5\<newline>'') \<noteq> length (lines_of ''foo 5'')"
  by (simp add: addExtraLabels.simps)

text \<open>
  C5. The transform run on \<^verbatim>\<open>foo 5\<close> with \<^verbatim>\<open>b="2"\<close> and then on its output with
  \<^verbatim>\<open>c="3"\<close> gives \<^verbatim>\<open>foo{c="3",b="2"} 5\<close> and a newline. For every line without
  labels, the second run puts its labels before those of the first run and keeps them,
  the first labels having no newline byte.
\<close>

theorem addExtraLabels_twice:
  "addExtraLabels [] ''foo 5'' ''b=\"2\"'' = Inr ''foo{b=\"2\"} 5\<newline>'' \<and>
   addExtraLabels [] ''foo{b=\"2\"} 5\<newline>'' ''c=\"3\"'' = Inr ''foo{c=\"3\",b=\"2\"} 5\<newline>'' \<and>
   (CHR ''{'' \<notin> set name \<and> CHR ''{'' \<notin> set val \<and> CHR '' '' \<notin> set val \<and>
    newline \<notin> set name \<and> newline \<notin> set val \<and> newline \<notin> set el1 \<longrightarrow>
      (\<exists>out. addExtraLabels [] (name @ CHR '' '' # val) el1 = Inr out \<and>
         addExtraLabels [] out el2 =
           Inr (name @ ''{'' @ el2 @ '','' @ el1 @ ''}'' @ CHR '' '' # val @ [newline])))"
proof (intro conjI impI)
  show "addExtraLabels [] ''foo 5'' ''b=\"2\"'' = Inr ''foo{b=\"2\"} 5\<newline>''"
    by (simp add: addExtraLabels.simps)
  show "addExtraLabels [] ''foo{b=\"2\"} 5\<newline>'' ''c=\"3\"'' = Inr ''foo{c=\"3\",b=\"2\"} 5\<newline>''"
    by (simp add: addExtraLabels.simps)
next
  assume h: "CHR ''{'' \<notin> set name \<and> CHR ''{'' \<notin> set val \<and> CHR '' '' \<notin> set val \<and>
    newline \<notin> set name \<and> newline \<notin> set val \<and> newline \<notin> set el1"
  let ?out = "name @ ''{'' @ el1 @ ''}'' @ CHR '' '' # val @ [newline]"
  from h have first: "addExtraLabels [] (name @ CHR '' '' # val) el1 = Inr ?out"
    by (simp add: addExtraLabels_unterminated appendLine_space)
  from h have "addExtraLabels [] ((name @ CHR ''{'' # (el1 @ ''}'' @ CHR '' '' # val)) @ newline # []) el2
      = Inr (name @ ''{'' @ el2 @ '','' @ (el1 @ ''}'' @ CHR '' '' # val) @ [newline])"
    by (subst addExtraLabels_terminated) (simp_all add: appendLine_brace addExtraLabels_Nil)
  then have "addExtraLabels [] ?out el2
      = Inr (name @ ''{'' @ el2 @ '','' @ el1 @ ''}'' @ CHR '' '' # val @ [newline])"
    by simp
  with first show "\<exists>out. addExtraLabels [] (name @ CHR '' '' # val) el1 = Inr out \<and>
         addExtraLabels [] out el2 =
           Inr (name @ ''{'' @ el2 @ '','' @ el1 @ ''}'' @ CHR '' '' # val @ [newline])"
    by blast
qed

theorem addExtraLabels_twice_witness:
  "CHR ''{'' \<notin> set ''up'' \<and> CHR ''{'' \<notin> set ''1'' \<and> CHR '' '' \<notin> set ''1'' \<and>
   newline \<notin> set ''up'' \<and> newline \<notin> set ''1'' \<and> newline \<notin> set ''job=\"db\"'' \<and>
   (\<exists>out. addExtraLabels [] (''up'' @ CHR '' '' # ''1'') ''job=\"db\"'' = Inr out \<and>
      addExtraLabels [] out ''env=\"p\"'' =
        Inr (''up'' @ ''{'' @ ''env=\"p\"'' @ '','' @ ''job=\"db\"'' @ ''}'' @ CHR '' '' # ''1'' @ [newline]))"
proof -
  have h: "CHR ''{'' \<notin> set ''up'' \<and> CHR ''{'' \<notin> set ''1'' \<and> CHR '' '' \<notin> set ''1'' \<and>
   newline \<notin> set ''up'' \<and> newline \<notin> set ''1'' \<and> newline \<notin> set ''job=\"db\"''" by simp
  from addExtraLabels_twice [of "''up''" "''1''" "''job=\"db\"''" "''env=\"p\"''"] h
  show ?thesis by blast
qed

section \<open>The transform on slices that may share memory\<close>

lemma length_bytes: "valid h s \<Longrightarrow> length (bytes h s) = s_len s"
  by (auto simp: valid_def bytes_def)

lemma bytes_slice_to: "n \<le> s_len s \<Longrightarrow> bytes h (slice_to s n) = take n (bytes h s)"
  by (simp add: bytes_def slice_to_def min_def)

lemma bytes_slice_from: "bytes h (slice_from s n) = drop n (bytes h s)"
  by (simp add: bytes_def slice_from_def drop_take add.commute)

lemma bytes_nil: "bytes h nil_slice = []"
  by (simp add: bytes_def nil_slice_def)

lemma valid_slice_to: "valid h s \<Longrightarrow> n \<le> s_len s \<Longrightarrow> valid h (slice_to s n)"
  by (simp add: valid_def slice_to_def)

lemma valid_slice_from: "valid h s \<Longrightarrow> n \<le> s_len s \<Longrightarrow> valid h (slice_from s n)"
  by (auto simp: valid_def slice_from_def)

lemma arr_slice_to: "s_arr (slice_to s n) = s_arr s"
  by (simp add: slice_to_def)

lemma arr_slice_from: "s_arr (slice_from s n) = s_arr s"
  by (simp add: slice_from_def)

lemma bytes_same_array: "h' ! s_arr s = h ! s_arr s \<Longrightarrow> bytes h' s = bytes h s"
  by (simp add: bytes_def)

lemma valid_same_array:
  "h' ! s_arr s = h ! s_arr s \<Longrightarrow> s_arr s < length h' \<Longrightarrow> valid h s \<Longrightarrow> valid h' s"
  by (simp add: valid_def)

lemma read_after_write:
  assumes "off + n + length bs \<le> length a"
  shows "take (n + length bs) (drop off (take (off + n) a @ bs @ drop (off + n + length bs) a))
           = take n (drop off a) @ bs"
proof -
  from assms have l: "length (take (off + n) a) = off + n" by simp
  have "drop off (take (off + n) a) = take n (drop off a)"
    by (simp add: drop_take)
  moreover from assms have "length (take n (drop off a)) = n" by simp
  ultimately show ?thesis using l by simp
qed

lemma appendBytes_inv:
  assumes "no_overlap m a"
  shows "no_overlap (appendBytes g m bs) a \<and>
         bytes (fst (appendBytes g m bs)) (snd (appendBytes g m bs)) = bytes (fst m) (snd m) @ bs \<and>
         fst (appendBytes g m bs) ! a = fst m ! a"
proof -
  obtain h d where m: "m = (h, d)" by (cases m)
  from assms m have v: "s_arr d < length h" "s_off d + s_cap d \<le> length (h ! s_arr d)"
    "s_len d \<le> s_cap d" and a: "a < length h" "s_arr d \<noteq> a \<or> s_cap d = s_len d"
    by (simp_all add: no_overlap_def valid_def)
  show ?thesis
  proof (cases "s_len d + length bs \<le> s_cap d")
    case True
    let ?i = "s_off d + s_len d"
    let ?a = "h ! s_arr d"
    let ?a' = "take ?i ?a @ bs @ drop (?i + length bs) ?a"
    from True have app: "appendBytes g m bs = (h[s_arr d := ?a'], d\<lparr>s_len := s_len d + length bs\<rparr>)"
      by (simp add: appendBytes_def m Let_def)
    from True v have len: "length ?a' = length ?a" by simp
    from True v have "take (s_len d + length bs) (drop (s_off d) ?a')
        = take (s_len d) (drop (s_off d) ?a) @ bs"
      by (intro read_after_write) simp
    with v have content: "bytes (h[s_arr d := ?a']) (d\<lparr>s_len := s_len d + length bs\<rparr>) = bytes h d @ bs"
      by (simp add: bytes_def)
    have frame: "h[s_arr d := ?a'] ! a = h ! a"
    proof (cases "s_arr d = a")
      case same: True
      with a(2) True have "bs = []" by simp
      with same v show ?thesis by simp
    next
      case False
      then show ?thesis by simp
    qed
    from True v a len have "no_overlap (h[s_arr d := ?a'], d\<lparr>s_len := s_len d + length bs\<rparr>) a"
      by (auto simp: no_overlap_def valid_def)
    with app content frame m show ?thesis by simp
  next
    case False
    let ?need = "s_len d + length bs"
    let ?c = "max ?need (g (s_cap d) ?need)"
    let ?new = "bytes h d @ bs @ replicate (?c - ?need) (CHR 0x00)"
    let ?d' = "\<lparr>s_arr = length h, s_off = 0, s_len = ?need, s_cap = ?c\<rparr>"
    from False have app: "appendBytes g m bs = (h @ [?new], ?d')"
      by (simp add: appendBytes_def m Let_def)
    from assms m have lb: "length (bytes h d) = s_len d" by (simp add: no_overlap_def length_bytes)
    then have content: "bytes (h @ [?new]) ?d' = bytes h d @ bs" by (simp add: bytes_def)
    from a have frame: "(h @ [?new]) ! a = h ! a" by (simp add: nth_append)
    from a lb have "no_overlap (h @ [?new], ?d') a" by (auto simp: no_overlap_def valid_def)
    with app content frame m show ?thesis by simp
  qed
qed

lemma addExtraLabels_mem_unfold:
  "addExtraLabels_mem g m src el =
     (if s_len src > 0 then
        (let n = IndexByte (bytes (fst m) src) newline;
             line = (if n \<ge> 0 then slice_to src (nat n) else src);
             src' = (if n \<ge> 0 then slice_from src (nat (n + 1)) else nil_slice)
         in case appendLine_mem g m line el of
              Inl p \<Rightarrow> Inl p
            | Inr m' \<Rightarrow> addExtraLabels_mem g m' src' el)
      else Inr m)"
  by (subst addExtraLabels_mem.simps) (simp add: appendLine_mem_def Let_def)


lemma addExtraLabels_unfold:
  "addExtraLabels dst src el =
     (if length src > 0 then
        (let n = IndexByte src newline;
             line = (if n \<ge> 0 then take (nat n) src else src);
             src' = (if n \<ge> 0 then drop (nat (n + 1)) src else [])
         in case appendLine dst line el of
              Inl p \<Rightarrow> Inl p
            | Inr dst' \<Rightarrow> addExtraLabels dst' src' el)
      else Inr dst)"
  by (subst addExtraLabels.simps) (simp add: appendLine_def Let_def)


lemma appendBytes_chain:
  "no_overlap m a \<Longrightarrow>
   no_overlap (foldl (appendBytes g) m bss) a \<and>
   bytes (fst (foldl (appendBytes g) m bss)) (snd (foldl (appendBytes g) m bss))
     = bytes (fst m) (snd m) @ concat bss \<and>
   fst (foldl (appendBytes g) m bss) ! a = fst m ! a"
proof (induction bss arbitrary: m)
  case Nil
  then show ?case by simp
next
  case (Cons bs bss)
  from appendBytes_inv [OF Cons.prems, of g bs] Cons.IH [of "appendBytes g m bs"]
  show ?case by simp
qed


lemma appendLine_mem_around:
  assumes "no_overlap m (s_arr line)" and "k \<le> s_len line"
  shows "\<exists>m'. appendBytes g
            (appendSlice g (foldl (appendBytes g) (appendSlice g m (slice_to line k)) mid)
               (slice_from line k)) [newline] = m' \<and>
          no_overlap m' (s_arr line) \<and>
          bytes (fst m') (snd m') =
            bytes (fst m) (snd m) @ take k (bytes (fst m) line) @ concat mid @
              drop k (bytes (fst m) line) @ [newline] \<and>
          fst m' ! s_arr line = fst m ! s_arr line"
proof -
  let ?L = "bytes (fst m) line"
  let ?m3 = "foldl (appendBytes g) m (take k ?L # mid)"
  from assms(2) have first: "appendSlice g m (slice_to line k) = appendBytes g m (take k ?L)"
    by (simp add: appendSlice_def bytes_slice_to)
  from appendBytes_chain [OF assms(1), of g "take k ?L # mid"]
  have m3: "no_overlap ?m3 (s_arr line)"
    "bytes (fst ?m3) (snd ?m3) = bytes (fst m) (snd m) @ concat (take k ?L # mid)"
    "fst ?m3 ! s_arr line = fst m ! s_arr line"
    by blast+
  have "bytes (fst ?m3) (slice_from line k) = bytes (fst m) (slice_from line k)"
    using m3(3) by (intro bytes_same_array) (simp add: arr_slice_from)
  then have "bytes (fst ?m3) (slice_from line k) = drop k ?L"
    by (simp add: bytes_slice_from)
  then have last: "appendBytes g (appendSlice g ?m3 (slice_from line k)) [newline]
      = foldl (appendBytes g) ?m3 [drop k ?L, [newline]]"
    by (simp add: appendSlice_def)
  from appendBytes_chain [OF m3(1), of g "[drop k ?L, [newline]]"] m3(2,3) first last
  show ?thesis by simp
qed


lemma appendLine_mem_refines:
  assumes "no_overlap m (s_arr line)" and "valid (fst m) line"
  shows "case appendLine_mem g m line el of
           Inl p \<Rightarrow> appendLine (bytes (fst m) (snd m)) (bytes (fst m) line) el = Inl p
         | Inr m' \<Rightarrow>
             appendLine (bytes (fst m) (snd m)) (bytes (fst m) line) el
               = Inr (bytes (fst m') (snd m')) \<and>
             no_overlap m' (s_arr line) \<and> fst m' ! s_arr line = fst m ! s_arr line"
proof -
  let ?L = "bytes (fst m) line"
  from assms(2) have len: "length ?L = s_len line" by (rule length_bytes)
  show ?thesis
  proof (cases "IndexByte ?L CHR ''{'' \<ge> 0")
    case True
    let ?k = "nat (IndexByte ?L CHR ''{'' + 1)"
    from True len have "?k \<le> s_len line"
      using IndexByte_bounds [of ?L "CHR ''{''"] by simp
    from appendLine_mem_around [OF assms(1) this, of g "[el, '','']"] True
    show ?thesis by (simp add: appendLine_mem_def appendLine_def Let_def)
  next
    case nobrace: False
    show ?thesis
    proof (cases "LastIndexByte ?L CHR '' '' < 0")
      case True
      with nobrace show ?thesis by (simp add: appendLine_mem_def appendLine_def Let_def)
    next
      case False
      let ?k = "nat (LastIndexByte ?L CHR '' '')"
      from False len have "?k \<le> s_len line"
        using LastIndexByte_bounds [of ?L "CHR '' ''"] by simp
      from appendLine_mem_around [OF assms(1) this, of g "[''{'', el, ''}'']"] nobrace False
      show ?thesis by (simp add: appendLine_mem_def appendLine_def Let_def)
    qed
  qed
qed


lemma addExtraLabels_mem_done:
  "s_len src = 0 \<Longrightarrow>
   result_bytes (addExtraLabels_mem g m src el)
     = addExtraLabels (bytes (fst m) (snd m)) (bytes (fst m) src) el"
  by (simp add: addExtraLabels_mem_unfold addExtraLabels_Nil result_bytes_def bytes_def)


lemma addExtraLabels_mem_refines:
  assumes "no_overlap m (s_arr src)" and "valid (fst m) src"
  shows "result_bytes (addExtraLabels_mem g m src el)
           = addExtraLabels (bytes (fst m) (snd m)) (bytes (fst m) src) el"
  using assms
proof (induction "s_len src" arbitrary: m src rule: less_induct)
  case less
  let ?S = "bytes (fst m) src"
  let ?n = "IndexByte ?S newline"
  let ?line = "if ?n \<ge> 0 then slice_to src (nat ?n) else src"
  let ?src' = "if ?n \<ge> 0 then slice_from src (nat (?n + 1)) else nil_slice"
  from less.prems(2) have len: "length ?S = s_len src" by (rule length_bytes)
  show ?case
  proof (cases "s_len src = 0")
    case True
    then show ?thesis by (rule addExtraLabels_mem_done)
  next
    case False
    have bound: "?n \<ge> 0 \<Longrightarrow> nat (?n + 1) \<le> s_len src \<and> nat ?n \<le> s_len src"
      using IndexByte_bounds [of ?S newline] len by arith
    have arr: "s_arr ?line = s_arr src" by (simp add: arr_slice_to)
    from less.prems(2) bound have vline: "valid (fst m) ?line"
      by (simp add: valid_slice_to)
    from bound have bline: "bytes (fst m) ?line = (if ?n \<ge> 0 then take (nat ?n) ?S else ?S)"
      by (simp add: bytes_slice_to)
    from less.prems(1) arr have "no_overlap m (s_arr ?line)" by simp
    note line = appendLine_mem_refines [OF this vline, where g = g and el = el]
    show ?thesis
    proof (cases "appendLine_mem g m ?line el")
      case (Inl p)
      with line False len bline show ?thesis
        by (subst addExtraLabels_mem_unfold, subst addExtraLabels_unfold)
          (simp add: result_bytes_def Let_def)
    next
      case (Inr m')
      with line arr have m': "appendLine (bytes (fst m) (snd m)) (bytes (fst m) ?line) el
            = Inr (bytes (fst m') (snd m'))"
        "no_overlap m' (s_arr src)" "fst m' ! s_arr src = fst m ! s_arr src"
        by simp_all
      have rest: "result_bytes (addExtraLabels_mem g m' ?src' el)
          = addExtraLabels (bytes (fst m') (snd m'))
              (if ?n \<ge> 0 then drop (nat (?n + 1)) ?S else []) el"
      proof (cases "?n \<ge> 0")
        case True
        from m'(3) have same: "fst m' ! s_arr (slice_from src (nat (?n + 1)))
            = fst m ! s_arr (slice_from src (nat (?n + 1)))"
          by (simp add: arr_slice_from)
        from less.prems(2) bound True have "valid (fst m) (slice_from src (nat (?n + 1)))"
          by (simp add: valid_slice_from)
        with same m'(2) have v: "valid (fst m') (slice_from src (nat (?n + 1)))"
          by (intro valid_same_array [of "fst m'" _ "fst m"]) (simp_all add: no_overlap_def arr_slice_from)
        from False have "s_len (slice_from src (nat (?n + 1))) < s_len src"
          using True by (simp add: slice_from_def)
        moreover from m'(3) have "bytes (fst m') src = bytes (fst m) src"
          by (rule bytes_same_array)
        ultimately show ?thesis
          using less.hyps [OF _ _ v] m'(2) True
          by (simp add: arr_slice_from bytes_slice_from)
      next
        case neg: False
        then show ?thesis
          using addExtraLabels_mem_done [of nil_slice g m' el]
          by (simp add: nil_slice_def bytes_def)
      qed
      from Inr m'(1) rest False len bline show ?thesis
        by (subst addExtraLabels_mem_unfold, subst addExtraLabels_unfold)
          (simp add: Let_def)
    qed
  qed
qed

subsection \<open>The destination buffer\<close>

text \<open>
  C10, for a destination and a source that do not share memory: the destination lies in
  another backing array than the source, or has no capacity left (as the nil slice).
  Then the bytes returned are the bytes of the destination followed by the bytes
  returned for the nil destination, with the same panic if there is one, whatever the
  runtime's growth of a full slice is.
\<close>

theorem addExtraLabels_mem_only_appends:
  assumes "valid h dst" and "valid h src"
    and "s_arr dst \<noteq> s_arr src \<or> s_cap dst = s_len dst"
  shows "result_bytes (addExtraLabels_mem g (h, dst) src el) =
           (case result_bytes (addExtraLabels_mem g (h, nil_slice) src el) of
              Inl p \<Rightarrow> Inl p
            | Inr out \<Rightarrow> Inr (bytes h dst @ out))"
proof -
  from assms have "no_overlap (h, dst) (s_arr src)"
    by (simp add: no_overlap_def valid_def)
  from addExtraLabels_mem_refines [OF this, of g el] assms(2)
  have full: "result_bytes (addExtraLabels_mem g (h, dst) src el)
      = addExtraLabels (bytes h dst) (bytes h src) el"
    by simp
  from assms(2) have "no_overlap (h, nil_slice) (s_arr src)"
    by (auto simp: no_overlap_def valid_def nil_slice_def)
  from addExtraLabels_mem_refines [OF this, of g el] assms(2)
  have "result_bytes (addExtraLabels_mem g (h, nil_slice) src el)
      = addExtraLabels [] (bytes h src) el"
    by (simp add: bytes_nil)
  with full show ?thesis
    using addExtraLabels_dst [of "bytes h dst" "bytes h src" el] by simp
qed

theorem addExtraLabels_mem_only_appends_witness:
  "result_bytes
     (addExtraLabels_mem exact_fit
        ([''foo 5\<newline>bar 6\<newline>'', ''ab......''], \<lparr>s_arr = 1, s_off = 0, s_len = 2, s_cap = 8\<rparr>)
        \<lparr>s_arr = 0, s_off = 0, s_len = 12, s_cap = 12\<rparr> ''b=\"2\"'')
     = Inr ''abfoo{b=\"2\"} 5\<newline>bar{b=\"2\"} 6\<newline>''"
proof -
  let ?h = "[''foo 5\<newline>bar 6\<newline>'', ''ab......'']"
  let ?dst = "\<lparr>s_arr = 1, s_off = 0, s_len = 2, s_cap = 8\<rparr>"
  let ?src = "\<lparr>s_arr = 0, s_off = 0, s_len = 12, s_cap = 12\<rparr>"
  have h1: "valid ?h ?dst" by (simp add: valid_def)
  have h2: "valid ?h ?src" by (simp add: valid_def)
  have h3: "s_arr ?dst \<noteq> s_arr ?src \<or> s_cap ?dst = s_len ?dst" by simp
  have e: "result_bytes (addExtraLabels_mem exact_fit (?h, nil_slice) ?src ''b=\"2\"'')
      = Inr ''foo{b=\"2\"} 5\<newline>bar{b=\"2\"} 6\<newline>''"
    by (simp add: addExtraLabels_mem.simps result_bytes_def appendBytes_def appendSlice_def
        bytes_def slice_to_def slice_from_def nil_slice_def exact_fit_def Let_def)
  from addExtraLabels_mem_only_appends [OF h1 h2 h3, of exact_fit "''b=\"2\"''"] e
  show ?thesis by (simp add: bytes_def)
qed

text \<open>
  Without that condition the equation fails. With the destination \<^verbatim>\<open>buf[:0]\<close> and the
  source \<^verbatim>\<open>buf\<close> of one buffer holding \<^verbatim>\<open>foo 5\<close> and \<^verbatim>\<open>bar 6\<close>, the bytes appended for
  the first line overwrite the second line before it is read; the destination is empty,
  and the result is not what the nil destination gives.
\<close>

theorem addExtraLabels_mem_only_appends_counterexample:
  "bytes [''foo 5\<newline>bar 6\<newline>''] \<lparr>s_arr = 0, s_off = 0, s_len = 0, s_cap = 12\<rparr> = [] \<and>
   result_bytes
     (addExtraLabels_mem exact_fit
        ([''foo 5\<newline>bar 6\<newline>''], \<lparr>s_arr = 0, s_off = 0, s_len = 0, s_cap = 12\<rparr>)
        \<lparr>s_arr = 0, s_off = 0, s_len = 12, s_cap = 12\<rparr> ''b=\"2\"'')
     = Inr ''foo{b=\"2\"}{b\<newline>\"2\"}{b=\"2\",b\<newline>'' \<and>
   result_bytes
     (addExtraLabels_mem exact_fit
        ([''foo 5\<newline>bar 6\<newline>''], nil_slice)
        \<lparr>s_arr = 0, s_off = 0, s_len = 12, s_cap = 12\<rparr> ''b=\"2\"'')
     = Inr ''foo{b=\"2\"} 5\<newline>bar{b=\"2\"} 6\<newline>''"
  by (simp add: addExtraLabels_mem.simps result_bytes_def appendBytes_def appendSlice_def
      bytes_def slice_to_def slice_from_def nil_slice_def exact_fit_def Let_def)

section \<open>Properties of the push loop\<close>

lemma status_class_2xx: "(c sdiv 100 = 2) \<longleftrightarrow> (200 \<le> c \<and> c \<le> (299::int))"
  by (auto simp: signed_divide_int_def sgn_if)

lemma Post_posts: "filter is_Http_Post (Post g bb result) = [Http_Post (pushURL g) ''text/plain'' bb]"
  by (cases result) (simp_all add: Post_def)

lemma Post_logs:
  "filter is_Log (Post g bb result) =
     (case result of
        Transport_error err \<Rightarrow> [Log_cannot_push (pushURL g) err]
      | Response c \<Rightarrow> if 200 \<le> c \<and> c \<le> 299 then [] else [Log_unexpected_status (pushURL g) c])"
  by (cases result) (simp_all add: Post_def status_class_2xx)

lemma Post_no_transform: "AddExtraLabels \<notin> set (Post g bb result)"
  by (cases result) (simp_all add: Post_def)

lemma tick_plain:
  "extraLabels g = [] \<Longrightarrow>
   tick g tmpBuf (snapshot, result) = (WriteMetrics snapshot # Post g snapshot result, Inr tmpBuf)"
  by (simp add: tick_def)

lemma tick_labelled:
  "extraLabels g \<noteq> [] \<Longrightarrow> addExtraLabels [] snapshot (extraLabels g) = Inr out \<Longrightarrow>
   tick g tmpBuf (snapshot, result) =
     (WriteMetrics snapshot # AddExtraLabels # Post g out result, Inr out)"
  by (simp add: tick_def)

lemma tick_panic:
  "extraLabels g \<noteq> [] \<Longrightarrow> addExtraLabels [] snapshot (extraLabels g) = Inl p \<Longrightarrow>
   tick g tmpBuf (snapshot, result) = ([WriteMetrics snapshot, AddExtraLabels], Inl p)"
  by (simp add: tick_def)

lemma tick_survives:
  assumes "extraLabels g = [] \<or> \<not> isl (addExtraLabels [] snapshot (extraLabels g))"
  shows "\<exists>pre bb tmpBuf'. tick g tmpBuf (snapshot, result) = (pre @ Post g bb result, Inr tmpBuf') \<and>
           filter is_Http_Post pre = [] \<and> filter is_Log pre = []"
proof (cases "extraLabels g = []")
  case True
  then show ?thesis
    by (intro exI [of _ "[WriteMetrics snapshot]"] exI [of _ snapshot] exI [of _ tmpBuf])
      (simp add: tick_plain)
next
  case False
  with assms obtain out where "addExtraLabels [] snapshot (extraLabels g) = Inr out"
    by (cases "addExtraLabels [] snapshot (extraLabels g)") auto
  with False show ?thesis
    by (intro exI [of _ "[WriteMetrics snapshot, AddExtraLabels]"] exI [of _ out] exI [of _ out])
      (simp add: tick_labelled)
qed

subsection \<open>Configuration\<close>

text \<open>
  C6. With an interval of zero or less, \<^verbatim>\<open>initPush\<close> panics about the interval, whatever
  the extra labels are, and the run has no event at all: no goroutine, no ticker, no
  snapshot, no request. With an interval above zero and extra labels that
  \<^verbatim>\<open>validateTags\<close> accepts, it does not panic and starts the goroutine with the
  arguments it was given.
\<close>

theorem initPush_interval:
  "(sint ival \<le> 0 \<longrightarrow>
      initPush validateTags url ival labels = Inl (BUG_interval_must_be_positive ival) \<and>
      run validateTags url ival labels ticks = ([], Inl (BUG_interval_must_be_positive ival))) \<and>
   (0 < sint ival \<and> validateTags labels = None \<longrightarrow>
      initPush validateTags url ival labels =
        Inr \<lparr>pushURL = url, interval = ival, extraLabels = labels\<rparr>)"
  by (simp add: initPush_def run_def)

theorem initPush_interval_witness:
  "sint (0 :: Duration) \<le> 0 \<and>
   run (\<lambda>labels. None) ''http://host/push'' 0 ''b=\"2\"'' [(''foo 5'', Response 200)]
     = ([], Inl (BUG_interval_must_be_positive 0)) \<and>
   sint (- 5 :: Duration) \<le> 0 \<and>
   initPush (\<lambda>labels. None) ''http://host/push'' (- 5) ''b=\"2\"''
     = Inl (BUG_interval_must_be_positive (- 5)) \<and>
   0 < sint (1000000000 :: Duration) \<and> (\<lambda>labels :: string. None :: string option) ''b=\"2\"'' = None \<and>
   initPush (\<lambda>labels. None) ''http://host/push'' 1000000000 ''b=\"2\"''
     = Inr \<lparr>pushURL = ''http://host/push'', interval = 1000000000, extraLabels = ''b=\"2\"''\<rparr>"
proof -
  have h1: "sint (0 :: Duration) \<le> 0" by simp
  have h2: "sint (- 5 :: Duration) \<le> 0" by simp
  have h3: "0 < sint (1000000000 :: Duration)" by simp
  show ?thesis
    using h1 h2 h3
      initPush_interval [of 0 "\<lambda>labels. None" "''http://host/push''" "''b=\"2\"''" "[(''foo 5'', Response 200)]"]
      initPush_interval [of "- 5" "\<lambda>labels. None" "''http://host/push''" "''b=\"2\"''" "[]"]
      initPush_interval [of 1000000000 "\<lambda>labels. None" "''http://host/push''" "''b=\"2\"''" "[]"]
    by simp
qed

subsection \<open>The payload without extra labels\<close>

text \<open>
  C7. With empty extra labels the loop never calls the transform, the requests it sends
  are exactly one per tick with the snapshot of that tick as the body, and no tick
  panics, whatever the snapshots and the results of the requests are.
\<close>

theorem pushLoop_without_extra_labels:
  assumes "extraLabels g = []"
  shows "AddExtraLabels \<notin> set (fst (pushLoop g tmpBuf ticks)) \<and>
         filter is_Http_Post (fst (pushLoop g tmpBuf ticks)) =
           map (\<lambda>t. Http_Post (pushURL g) ''text/plain'' (fst t)) ticks \<and>
         snd (pushLoop g tmpBuf ticks) = Inr tmpBuf"
proof (induction ticks)
  case Nil
  show ?case by simp
next
  case (Cons t ts)
  obtain snapshot result where t: "t = (snapshot, result)" by (cases t)
  obtain ev r where rest: "pushLoop g tmpBuf ts = (ev, r)" by (cases "pushLoop g tmpBuf ts")
  with Cons t assms show ?case
    by (simp add: tick_plain Post_posts Post_no_transform)
qed

theorem pushLoop_without_extra_labels_witness:
  "extraLabels \<lparr>pushURL = ''u'', interval = 1, extraLabels = []\<rparr> = [] \<and>
   pushLoop \<lparr>pushURL = ''u'', interval = 1, extraLabels = []\<rparr> []
      [(''foo 5'', Response 200), (''junk'', Transport_error ''refused'')]
     = ([WriteMetrics ''foo 5'', Http_Post ''u'' ''text/plain'' ''foo 5'', Body_Close,
         WriteMetrics ''junk'', Http_Post ''u'' ''text/plain'' ''junk'',
         Log_cannot_push ''u'' ''refused''], Inr [])"
proof -
  have h: "extraLabels \<lparr>pushURL = ''u'', interval = 1, extraLabels = []\<rparr> = []" by simp
  show ?thesis
    using h pushLoop_without_extra_labels [OF h, of "[]" "[(''foo 5'', Response 200), (''junk'', Transport_error ''refused'')]"]
    by (simp add: tick_def Post_def signed_divide_int_def)
qed

subsection \<open>Failed deliveries\<close>

text \<open>
  C8. As long as no snapshot makes the transform panic, the loop is still running after
  any sequence of ticks, whatever the result of each request is: it has sent exactly one
  request for each tick, and it has logged one line for each transport error and one
  line, with the status code, for each response whose status is outside 200..299, in
  the order of the ticks. Whether an iteration panics does not depend on the result of
  its request.
\<close>

theorem pushLoop_survives_failed_delivery:
  assumes "extraLabels g = [] \<or>
           (\<forall>t\<in>set ticks. \<not> isl (addExtraLabels [] (fst t) (extraLabels g)))"
  shows "(\<exists>tmpBuf'. snd (pushLoop g tmpBuf ticks) = Inr tmpBuf') \<and>
         length (filter is_Http_Post (fst (pushLoop g tmpBuf ticks))) = length ticks \<and>
         filter is_Log (fst (pushLoop g tmpBuf ticks)) =
           concat (map (\<lambda>t. case snd t of
                          Transport_error err \<Rightarrow> [Log_cannot_push (pushURL g) err]
                        | Response c \<Rightarrow>
                            if 200 \<le> c \<and> c \<le> 299 then []
                            else [Log_unexpected_status (pushURL g) c]) ticks) \<and>
         isl (snd (tick g tmpBuf (snapshot, result))) = isl (snd (tick g tmpBuf (snapshot, result')))"
proof -
  have loop: "(\<exists>tmpBuf'. snd (pushLoop g tmpBuf ticks) = Inr tmpBuf') \<and>
         length (filter is_Http_Post (fst (pushLoop g tmpBuf ticks))) = length ticks \<and>
         filter is_Log (fst (pushLoop g tmpBuf ticks)) =
           concat (map (\<lambda>t. case snd t of
                          Transport_error err \<Rightarrow> [Log_cannot_push (pushURL g) err]
                        | Response c \<Rightarrow>
                            if 200 \<le> c \<and> c \<le> 299 then []
                            else [Log_unexpected_status (pushURL g) c]) ticks)"
    using assms
  proof (induction ticks arbitrary: tmpBuf)
    case Nil
    show ?case by simp
  next
    case (Cons t ts)
    obtain snap res where t: "t = (snap, res)" by (cases t)
    from Cons.prems t
    have "extraLabels g = [] \<or> \<not> isl (addExtraLabels [] snap (extraLabels g))" by auto
    from tick_survives [OF this, of tmpBuf res]
    obtain pre bb tmpBuf' where tk: "tick g tmpBuf (snap, res) = (pre @ Post g bb res, Inr tmpBuf')"
      "filter is_Http_Post pre = []" "filter is_Log pre = []"
      by blast
    from Cons.prems have "extraLabels g = [] \<or>
           (\<forall>t\<in>set ts. \<not> isl (addExtraLabels [] (fst t) (extraLabels g)))" by auto
    from Cons.IH [OF this, of tmpBuf']
    obtain ev r where rest: "pushLoop g tmpBuf' ts = (ev, r)" and
      ih: "\<exists>b. r = Inr b" "length (filter is_Http_Post ev) = length ts"
        "filter is_Log ev = concat (map (\<lambda>t. case snd t of
                          Transport_error err \<Rightarrow> [Log_cannot_push (pushURL g) err]
                        | Response c \<Rightarrow>
                            if 200 \<le> c \<and> c \<le> 299 then []
                            else [Log_unexpected_status (pushURL g) c]) ts)"
      by (cases "pushLoop g tmpBuf' ts") auto
    from t tk rest ih show ?case
      by (simp add: Post_posts Post_logs)
  qed
  have "isl (snd (tick g tmpBuf (snapshot, result))) = isl (snd (tick g tmpBuf (snapshot, result')))"
    by (simp add: tick_def Let_def split: sum.splits)
  with loop show ?thesis by blast
qed

theorem pushLoop_survives_failed_delivery_witness:
  "fst (pushLoop \<lparr>pushURL = ''u'', interval = 1, extraLabels = ''b=\"2\"''\<rparr> []
      [(''foo 5'', Transport_error ''refused''), (''foo 6'', Response 500), (''foo 7'', Response 204)])
     = [WriteMetrics ''foo 5'', AddExtraLabels, Http_Post ''u'' ''text/plain'' ''foo{b=\"2\"} 5\<newline>'',
        Log_cannot_push ''u'' ''refused'',
        WriteMetrics ''foo 6'', AddExtraLabels, Http_Post ''u'' ''text/plain'' ''foo{b=\"2\"} 6\<newline>'',
        Body_Close, Log_unexpected_status ''u'' 500,
        WriteMetrics ''foo 7'', AddExtraLabels, Http_Post ''u'' ''text/plain'' ''foo{b=\"2\"} 7\<newline>'',
        Body_Close] \<and>
   (\<exists>tmpBuf'. snd (pushLoop \<lparr>pushURL = ''u'', interval = 1, extraLabels = ''b=\"2\"''\<rparr> []
      [(''foo 5'', Transport_error ''refused''), (''foo 6'', Response 500), (''foo 7'', Response 204)])
        = Inr tmpBuf')"
proof -
  have h: "extraLabels \<lparr>pushURL = ''u'', interval = 1, extraLabels = ''b=\"2\"''\<rparr> = [] \<or>
    (\<forall>t\<in>set [(''foo 5'', Transport_error ''refused''), (''foo 6'', Response 500),
               (''foo 7'', Response 204)].
       \<not> isl (addExtraLabels [] (fst t) (extraLabels \<lparr>pushURL = ''u'', interval = 1, extraLabels = ''b=\"2\"''\<rparr>)))"
    by (simp add: addExtraLabels.simps)
  have e: "fst (pushLoop \<lparr>pushURL = ''u'', interval = 1, extraLabels = ''b=\"2\"''\<rparr> []
      [(''foo 5'', Transport_error ''refused''), (''foo 6'', Response 500), (''foo 7'', Response 204)])
     = [WriteMetrics ''foo 5'', AddExtraLabels, Http_Post ''u'' ''text/plain'' ''foo{b=\"2\"} 5\<newline>'',
        Log_cannot_push ''u'' ''refused'',
        WriteMetrics ''foo 6'', AddExtraLabels, Http_Post ''u'' ''text/plain'' ''foo{b=\"2\"} 6\<newline>'',
        Body_Close, Log_unexpected_status ''u'' 500,
        WriteMetrics ''foo 7'', AddExtraLabels, Http_Post ''u'' ''text/plain'' ''foo{b=\"2\"} 7\<newline>'',
        Body_Close]"
    by (simp add: tick_def Post_def signed_divide_int_def addExtraLabels.simps)
  from pushLoop_survives_failed_delivery [OF h, of "[]"] e show ?thesis by blast
qed

end
